theory Spec2Isabelle
  imports Complex_Main "HOL-Library.Sublist"
begin

section \<open>Nodes\<close>

text \<open>
  The simulator of \<^verbatim>\<open>BaseSimulator.py\<close> keeps a list of node objects and calls their
  methods. A node is a Python object: it has an identity, a class, and the two attributes
  the simulator reads or writes, \<^verbatim>\<open>register\<close> (read for visual nodes only) and
  \<^verbatim>\<open>simulator\<close> (the back-reference that \<^verbatim>\<open>register_node\<close> sets).
\<close>

datatype node_class = HeadlessNode | VisualNode

record node =
  ident :: nat
  cls :: node_class
  register :: bool
  simulator :: "nat option"

text \<open>
  Modelled from the spec: the class declarations of \<^verbatim>\<open>Simulator2.Nodes\<close> are not among
  the sources. The docstring of \<^verbatim>\<open>get_nodes\<close> says that \<^verbatim>\<open>HeadlessNode\<close> is the
  base class, and the spec has the two capabilities Headless and Visual, so every node is
  an instance of \<^verbatim>\<open>HeadlessNode\<close> and the visual ones are also instances of
  \<^verbatim>\<open>VisualNode\<close>.
\<close>

fun isinstance :: "node \<Rightarrow> node_class \<Rightarrow> bool" where
  "isinstance n HeadlessNode = True"
| "isinstance n VisualNode = (cls n = VisualNode)"

text \<open>The methods of a node that the simulator calls for their effect only.\<close>

datatype callback =
    On_start
  | On_exit
  | On_start_computation_thread
  | On_pause_computational_thread
  | Step

text \<open>
  The values of the toolkit's \<^verbatim>\<open>gui.Widget.EventCallbackResult\<close>. The dispatchers
  compare a handler's result with \<^verbatim>\<open>HANDLED\<close> only.
\<close>

datatype EventCallbackResult = IGNORED | HANDLED | CONSUMED

section \<open>The simulator\<close>

text \<open>
  What the simulator does to the outside (its nodes, the toolkit, its thread) is recorded,
  in order, in a trace. Calls of node methods carry the thread that makes them: the body
  of \<^verbatim>\<open>_run_computational_loop\<close> is the target of the worker thread, the closure
  \<^verbatim>\<open>display\<close> is handed to \<^verbatim>\<open>post_to_main_thread\<close>, and the methods of the
  simulator are called from the toolkit's callbacks, on the UI thread.
\<close>

datatype thread_name = UI_thread | Worker_thread

datatype exn = RuntimeError | ValueError | AttributeError

datatype action =
    Call thread_name node callback
  | Panel_add_fixed int
  | Panel_add_child node
  | Window_add_child node
  | Thread_start
  | Thread_join
  | Frame real
  | Post_to_main_thread
  | Sleep real
  | Worker_raised exn
  | Print_thread_names
  | Application_quit

text \<open>
  The worker thread object: created and not started, started and about to enter
  \<^verbatim>\<open>_run_computational_loop\<close>, at the head of the \<^verbatim>\<open>while\<close> loop, or terminated.
\<close>

datatype thread_state = Unstarted | Started | Looping | Exited

text \<open>
  The attributes of \<^verbatim>\<open>BaseSimulator\<close> that its methods use. A time is a Python
  float, given by the real number it stands for; what the code computes from times is
  rounded as Python rounds it (see \<open>float_round\<close> below).
  \<^verbatim>\<open>main_thread_finished\<close> does not exist before the loop first assigns it, hence the
  option. \<open>posted\<close> counts the closures handed to
  \<^verbatim>\<open>post_to_main_thread\<close> that the UI thread has not run yet. The attributes
  \<^verbatim>\<open>_state\<close> and \<^verbatim>\<open>_paused\<close> are never used and are left out.
\<close>

record sim =
  obj_id :: nat
  em :: int
  animation_delay_time :: real
  last_animation_time :: real
  computational_nodes :: "node list"
  running :: bool
  computational_thread :: thread_state
  main_thread_finished :: "bool option"
  posted :: nat
  trace :: "action list"

text \<open>\<^verbatim>\<open>__init__\<close>, given the identity of the new object and the theme's font size.\<close>

definition BaseSimulator :: "nat \<Rightarrow> int \<Rightarrow> sim" where
  "BaseSimulator i font_size =
     \<lparr>obj_id = i, em = font_size, animation_delay_time = 2, last_animation_time = 0,
      computational_nodes = [], running = False, computational_thread = Unstarted,
      main_thread_finished = None, posted = 0, trace = []\<rparr>"

subsection \<open>The registry\<close>

definition register_node :: "node \<Rightarrow> sim \<Rightarrow> sim" where
  "register_node n s =
     (let n' = n\<lparr>simulator := Some (obj_id s)\<rparr>;
          s' = s\<lparr>computational_nodes := computational_nodes s @ [n']\<rparr>
      in if isinstance n' VisualNode then
           (if register n' then
              s'\<lparr>trace := trace s' @ [Panel_add_fixed (em s'), Panel_add_child n']\<rparr>
            else s'\<lparr>trace := trace s' @ [Window_add_child n']\<rparr>)
         else s')"

definition get_nodes :: "node_class \<Rightarrow> sim \<Rightarrow> node list" where
  "get_nodes cl s = filter (\<lambda>node. isinstance node cl) (computational_nodes s)"

text \<open>A loop that calls one method on every registered node, in the order of the list.\<close>

definition fan_out :: "callback \<Rightarrow> sim \<Rightarrow> sim" where
  "fan_out cb s =
     s\<lparr>trace := trace s @ map (\<lambda>node. Call UI_thread node cb) (computational_nodes s)\<rparr>"

definition on_start :: "sim \<Rightarrow> sim" where
  "on_start s = fan_out On_start s"

definition on_exit :: "sim \<Rightarrow> sim" where
  "on_exit s = fan_out On_exit s"

subsection \<open>Event dispatch\<close>

text \<open>
  A handler of a node is a method with a result: it may read and change the state of the
  nodes, of type \<open>'w\<close> here, and returns an \<open>EventCallbackResult\<close>. The loop of
  \<^verbatim>\<open>_on_mouse_3d\<close> and \<^verbatim>\<open>_on_key\<close> returns the result, the calls it made with what
  each reported, and the state the handlers left.
\<close>

type_synonym ('e, 'w) handler = "node \<Rightarrow> 'e \<Rightarrow> 'w \<Rightarrow> EventCallbackResult \<times> 'w"

fun dispatch ::
  "('e, 'w) handler \<Rightarrow> 'e \<Rightarrow> node list \<Rightarrow> 'w
     \<Rightarrow> EventCallbackResult \<times> (node \<times> EventCallbackResult) list \<times> 'w" where
  "dispatch h event [] w = (IGNORED, [], w)"
| "dispatch h event (node # rest) w =
     (case h node event w of
        (result, w') \<Rightarrow>
          if result = HANDLED then (result, [(node, result)], w')
          else (case dispatch h event rest w' of
                  (r, calls, w'') \<Rightarrow> (r, (node, result) # calls, w'')))"

record ('m, 'k, 'w) node_methods =
  node_on_mouse_3d :: "('m, 'w) handler"
  node_on_key :: "('k, 'w) handler"

definition on_mouse_3d ::
  "('m, 'k, 'w) node_methods \<Rightarrow> sim \<Rightarrow> 'm \<Rightarrow> 'w
     \<Rightarrow> EventCallbackResult \<times> (node \<times> EventCallbackResult) list \<times> 'w" where
  "on_mouse_3d M s event w = dispatch (node_on_mouse_3d M) event (computational_nodes s) w"

definition on_key ::
  "('m, 'k, 'w) node_methods \<Rightarrow> sim \<Rightarrow> 'k \<Rightarrow> 'w
     \<Rightarrow> EventCallbackResult \<times> (node \<times> EventCallbackResult) list \<times> 'w" where
  "on_key M s event w = dispatch (node_on_key M) event (computational_nodes s) w"

subsection \<open>Python floats\<close>

text \<open>
  A Python float is an IEEE 754 double: zero, or a number \<open>m * 2 ^ k\<close> with an integer
  \<open>m\<close> of at most 53 bits and \<open>k\<close> not below \<open>- 1074\<close>. The sum and the
  difference of two floats are the exact results rounded to the nearest float, to the one
  with the even \<open>m\<close> when two are equally near. Sums beyond the largest float (about
  \<open>1.8e308\<close>, where Python gives infinity) are not modelled; the times and intervals of
  the simulator are far from there.
\<close>

text \<open>The number of binary digits of a natural number, Python's \<^verbatim>\<open>int.bit_length\<close>.\<close>

fun bit_length :: "nat \<Rightarrow> nat" where
  "bit_length n = (if n = 0 then 0 else Suc (bit_length (n div 2)))"

declare bit_length.simps [simp del]

definition pow2 :: "int \<Rightarrow> real" where
  "pow2 k = (if 0 \<le> k then 2 ^ nat k else 1 / 2 ^ nat (- k))"

text \<open>For a positive \<open>x\<close>, the exponent \<open>e\<close> with \<open>2 ^ e \<le> x < 2 ^ (e + 1)\<close>.\<close>

definition binade :: "real \<Rightarrow> int" where
  "binade x =
     (if 1 \<le> x then int (bit_length (nat \<lfloor>x\<rfloor>)) - 1
      else - int (bit_length (nat (\<lceil>1 / x\<rceil> - 1))))"

definition round_half_even :: "real \<Rightarrow> int" where
  "round_half_even q =
     (let f = \<lfloor>q\<rfloor>; r = q - of_int f
      in if r < 1 / 2 then f else if 1 / 2 < r then f + 1 else if even f then f else f + 1)"

text \<open>
  Rounding to the nearest float: to a multiple of \<open>2 ^ k\<close>, where \<open>k\<close> leaves 53 bits
  for a number of the size of \<open>x\<close>, and is \<open>- 1074\<close> for the smallest numbers.
\<close>

definition float_round :: "real \<Rightarrow> real" where
  "float_round x =
     (if x = 0 then 0
      else (let k = max (binade \<bar>x\<bar> - 52) (- 1074)
            in sgn x * of_int (round_half_even (\<bar>x\<bar> / pow2 k)) * pow2 k))"

text \<open>Python's \<^verbatim>\<open>+\<close> and \<^verbatim>\<open>-\<close> on floats.\<close>

definition float_add :: "real \<Rightarrow> real \<Rightarrow> real" where
  "float_add a b = float_round (a + b)"

definition float_sub :: "real \<Rightarrow> real \<Rightarrow> real" where
  "float_sub a b = float_round (a - b)"

subsection \<open>The computation loop\<close>

text \<open>The two assignments before the \<^verbatim>\<open>while\<close> loop.\<close>

definition loop_entry :: "sim \<Rightarrow> sim" where
  "loop_entry s = s\<lparr>last_animation_time := 0, main_thread_finished := Some True\<rparr>"

text \<open>The closure \<^verbatim>\<open>display\<close>, which the UI thread runs.\<close>

definition display :: "sim \<Rightarrow> sim" where
  "display s =
     s\<lparr>trace := trace s @ map (\<lambda>node. Call UI_thread node Step)
                   (filter (\<lambda>node. isinstance node VisualNode) (computational_nodes s)),
       main_thread_finished := Some True\<rparr>"

text \<open>\<^verbatim>\<open>time.sleep\<close> raises \<^verbatim>\<open>ValueError\<close> when its argument is negative.\<close>

definition time_sleep :: "real \<Rightarrow> sim \<Rightarrow> exn + sim" where
  "time_sleep secs s =
     (if secs < 0 then Inl ValueError else Inr (s\<lparr>trace := trace s @ [Sleep secs]\<rparr>))"

text \<open>The argument that the \<^verbatim>\<open>else\<close> branch of the loop passes to \<^verbatim>\<open>time.sleep\<close>.\<close>

definition sleep_argument :: "real \<Rightarrow> sim \<Rightarrow> real" where
  "sleep_argument now s =
     float_sub (float_sub now (last_animation_time s)) (animation_delay_time s)"

text \<open>One pass through the body of the \<^verbatim>\<open>while\<close> loop, \<open>now\<close> being what
  \<^verbatim>\<open>time.time()\<close> returned.\<close>

definition loop_body :: "real \<Rightarrow> sim \<Rightarrow> exn + sim" where
  "loop_body now s =
     (case main_thread_finished s of
        None \<Rightarrow> Inl AttributeError
      | Some finished \<Rightarrow>
          if finished
             \<and> now \<ge> float_add (last_animation_time s) (animation_delay_time s) then
            Inr (s\<lparr>last_animation_time := now,
                   trace := trace s @ [Frame now]
                     @ map (\<lambda>node. Call Worker_thread node Step)
                         (filter (\<lambda>node. \<not> isinstance node VisualNode) (computational_nodes s))
                     @ [Post_to_main_thread],
                   main_thread_finished := Some False,
                   posted := Suc (posted s)\<rparr>)
          else time_sleep (sleep_argument now s) s)"

text \<open>
  One step of the worker thread: the entry of the function, or the test of the loop and
  one pass through its body. An exception that the body raises is not caught: it ends the
  thread, and \<^verbatim>\<open>_running\<close> stays as it is.
\<close>

definition worker_step :: "real \<Rightarrow> sim \<Rightarrow> sim" where
  "worker_step now s =
     (case computational_thread s of
        Unstarted \<Rightarrow> s
      | Started \<Rightarrow> (loop_entry s)\<lparr>computational_thread := Looping\<rparr>
      | Looping \<Rightarrow>
          if running s then
            (case loop_body now s of
               Inl e \<Rightarrow> s\<lparr>computational_thread := Exited, trace := trace s @ [Worker_raised e]\<rparr>
             | Inr s' \<Rightarrow> s')
          else s\<lparr>computational_thread := Exited\<rparr>
      | Exited \<Rightarrow> s)"

text \<open>The UI thread takes one posted closure, if there is one, and runs it.\<close>

definition main_thread_task :: "sim \<Rightarrow> sim" where
  "main_thread_task s = (if posted s = 0 then s else (display s)\<lparr>posted := posted s - 1\<rparr>)"

subsection \<open>Starting, stopping, closing\<close>

text \<open>
  \<^verbatim>\<open>Thread.join\<close> raises \<^verbatim>\<open>RuntimeError\<close> on a thread that was never started, and
  otherwise returns once the thread has terminated. Both callers clear \<^verbatim>\<open>_running\<close>
  just before, so the worker leaves at its next test of the flag (after the entry of the
  function, if it had not got that far); the passes through the loop that it completes
  before that are steps of the worker that come before the join.
\<close>

definition thread_join :: "sim \<Rightarrow> exn + sim" where
  "thread_join s =
     (case computational_thread s of
        Unstarted \<Rightarrow> Inl RuntimeError
      | Started \<Rightarrow>
          Inr ((loop_entry s)\<lparr>computational_thread := Exited, trace := trace s @ [Thread_join]\<rparr>)
      | Looping \<Rightarrow> Inr (s\<lparr>computational_thread := Exited, trace := trace s @ [Thread_join]\<rparr>)
      | Exited \<Rightarrow> Inr (s\<lparr>trace := trace s @ [Thread_join]\<rparr>))"

definition start_computational_thread :: "sim \<Rightarrow> sim" where
  "start_computational_thread s =
     (if \<not> running s then
        (let s1 = fan_out On_start_computation_thread s;
             s2 = s1\<lparr>computational_thread := Unstarted\<rparr>;
             s3 = s2\<lparr>running := True\<rparr>
         in s3\<lparr>computational_thread := Started, trace := trace s3 @ [Thread_start]\<rparr>)
      else s)"

definition stop_computational_thread :: "sim \<Rightarrow> exn + sim" where
  "stop_computational_thread s =
     (case thread_join (s\<lparr>running := False\<rparr>) of
        Inl e \<Rightarrow> Inl e
      | Inr s' \<Rightarrow> Inr (fan_out On_pause_computational_thread s'))"

text \<open>\<^verbatim>\<open>_quit\<close>, the handler of the window's close signal.\<close>

definition quit :: "sim \<Rightarrow> exn + sim" where
  "quit s =
     (let s1 = on_exit s;
          s2 = s1\<lparr>trace := trace s1 @ [Print_thread_names]\<rparr>
      in case (if running s2 then thread_join (s2\<lparr>running := False\<rparr>) else Inr s2) of
           Inl e \<Rightarrow> Inl e
         | Inr s3 \<Rightarrow> Inr (s3\<lparr>computational_nodes := [], trace := trace s3 @ [Application_quit]\<rparr>))"

subsection \<open>Runs\<close>

text \<open>
  The simulator moves by the calls of its methods on the UI thread, by the steps of the
  worker thread, and by the UI thread running a posted closure. A run is a list of such
  events; it ends where a method raises.
\<close>

datatype event =
    Register node
  | Start
  | Stop
  | Close
  | Worker real
  | Main_task

fun apply_event :: "event \<Rightarrow> sim \<Rightarrow> exn + sim" where
  "apply_event (Register n) s = Inr (register_node n s)"
| "apply_event Start s = Inr (start_computational_thread s)"
| "apply_event Stop s = stop_computational_thread s"
| "apply_event Close s = quit s"
| "apply_event (Worker now) s = Inr (worker_step now s)"
| "apply_event Main_task s = Inr (main_thread_task s)"

fun exec :: "event list \<Rightarrow> sim \<Rightarrow> exn + sim" where
  "exec [] s = Inr s"
| "exec (e # es) s = (case apply_event e s of Inl x \<Rightarrow> Inl x | Inr s' \<Rightarrow> exec es s')"

text \<open>What a method or a run added to the trace.\<close>

definition added :: "sim \<Rightarrow> sim \<Rightarrow> action list" where
  "added s s' = drop (length (trace s)) (trace s')"

section \<open>Reading the trace\<close>

text \<open>The nodes on which a thread called a method, in the order of the calls.\<close>

fun call_node :: "thread_name \<Rightarrow> callback \<Rightarrow> action \<Rightarrow> node option" where
  "call_node t cb (Call t' n cb') = (if t' = t \<and> cb' = cb then Some n else None)"
| "call_node t cb _ = None"

definition calls_of :: "thread_name \<Rightarrow> callback \<Rightarrow> action list \<Rightarrow> node list" where
  "calls_of t cb tr = List.map_filter (call_node t cb) tr"

text \<open>The times of the frames, in the order in which the worker began them.\<close>

fun frame_time :: "action \<Rightarrow> real option" where
  "frame_time (Frame t) = Some t"
| "frame_time _ = None"

definition frame_times :: "action list \<Rightarrow> real list" where
  "frame_times tr = List.map_filter frame_time tr"

section \<open>Concrete simulators\<close>

definition node_A :: node where
  "node_A = \<lparr>ident = 1, cls = HeadlessNode, register = False, simulator = None\<rparr>"

definition node_B :: node where
  "node_B = \<lparr>ident = 2, cls = VisualNode, register = True, simulator = None\<rparr>"

definition node_C :: node where
  "node_C = \<lparr>ident = 3, cls = VisualNode, register = False, simulator = None\<rparr>"

text \<open>A simulator with the three nodes registered, and the nodes as it then holds them.\<close>

definition shell :: sim where
  "shell = register_node node_C (register_node node_B (register_node node_A (BaseSimulator 0 12)))"

definition A' :: node where "A' = node_A\<lparr>simulator := Some 0\<rparr>"
definition B' :: node where "B' = node_B\<lparr>simulator := Some 0\<rparr>"
definition C' :: node where "C' = node_C\<lparr>simulator := Some 0\<rparr>"

text \<open>
  Handlers for the three nodes: B handles every event, A and C ignore it; each call
  is counted in the nodes' state.
\<close>

definition B_handles :: "('e, nat) handler" where
  "B_handles n event w = (if ident n = 2 then HANDLED else IGNORED, Suc w)"

definition methods_B :: "(unit, unit, nat) node_methods" where
  "methods_B = \<lparr>node_on_mouse_3d = B_handles, node_on_key = B_handles\<rparr>"

section \<open>Runs of the computation loop\<close>

text \<open>The events of a run of the loop: steps of the worker and closures run by the UI thread.\<close>

fun loop_event :: "event \<Rightarrow> bool" where
  "loop_event (Worker now) = True"
| "loop_event Main_task = True"
| "loop_event _ = False"

text \<open>
  What a frame is asked to add to the trace after its time: the steps of the nodes that
  are headless only, made by the worker in the order of registration, and then the
  posting of the closure.
\<close>

definition frame_block :: "node list \<Rightarrow> action list" where
  "frame_block ns =
     map (\<lambda>node. Call Worker_thread node Step) (filter (\<lambda>node. \<not> isinstance node VisualNode) ns)
       @ [Post_to_main_thread]"

text \<open>
  A trace has its frames in order when every frame is followed at once by the whole block
  above, and the worker steps no node and posts no closure anywhere else.
\<close>

fun frames_in_order :: "node list \<Rightarrow> action list \<Rightarrow> bool" where
  "frames_in_order ns [] = True"
| "frames_in_order ns (Frame t # tr) =
     (take (length (frame_block ns)) tr = frame_block ns
      \<and> frames_in_order ns (drop (length (frame_block ns)) tr))"
| "frames_in_order ns (Call Worker_thread n Step # tr) = False"
| "frames_in_order ns (Post_to_main_thread # tr) = False"
| "frames_in_order ns (a # tr) = frames_in_order ns tr"

text \<open>The times that the worker reads from the clock in a run.\<close>

fun worker_times :: "event list \<Rightarrow> real list" where
  "worker_times [] = []"
| "worker_times (Worker now # es) = now # worker_times es"
| "worker_times (e # es) = worker_times es"

text \<open>
  A reading of the clock that is not negative, stays below \<open>2 ^ 31\<close> when 2 is added,
  and is a multiple of \<open>1 / 2 ^ 22\<close>. The floats from \<open>2 ^ 30\<close> to \<open>2 ^ 31\<close>, which
  are the readings of \<^verbatim>\<open>time.time()\<close> from 2004 to 2038, are such multiples.
\<close>

definition clock_reading :: "real \<Rightarrow> bool" where
  "clock_reading t = (0 \<le> t \<and> t + 2 < 2 ^ 31 \<and> of_int \<lfloor>t * 2 ^ 22\<rfloor> = t * 2 ^ 22)"

text \<open>The float sums of the interval to the given times are all exact.\<close>

definition sums_exact :: "real \<Rightarrow> real list \<Rightarrow> bool" where
  "sums_exact d ts = list_all (\<lambda>t. float_add t d = t + d) ts"

text \<open>
  The time that the next frame is measured against: the time of the last frame, once the
  worker has entered the loop.
\<close>

definition anchor :: "sim \<Rightarrow> real list" where
  "anchor s = (if computational_thread s = Started then [] else [last_animation_time s])"

text \<open>
  What the flag \<^verbatim>\<open>main_thread_finished\<close> is there to keep: no closure is waiting, or
  one is and the flag is false in a worker that is past the entry of the function.
\<close>

definition one_in_flight :: "sim \<Rightarrow> bool" where
  "one_in_flight s =
     (posted s = 0
      \<or> posted s = 1 \<and> main_thread_finished s = Some False \<and> computational_thread s \<noteq> Started)"

section \<open>Concrete states and runs\<close>

text \<open>The simulator above after \<^verbatim>\<open>start_computational_thread\<close>.\<close>

definition started_shell :: sim where
  "started_shell = start_computational_thread shell"

text \<open>It with the worker at the head of its loop, and then with a first frame posted at time 10.\<close>

definition looping_shell :: sim where
  "looping_shell = worker_step 0 started_shell"

definition in_flight_shell :: sim where
  "in_flight_shell = worker_step 10 looping_shell"

text \<open>The simulator after a start and a stop, written out.\<close>

definition stopped_shell :: sim where
  "stopped_shell = shell\<lparr>running := False, computational_thread := Exited,
     last_animation_time := 0, main_thread_finished := Some True,
     trace := trace shell @ [Call UI_thread A' On_start_computation_thread,
       Call UI_thread B' On_start_computation_thread,
       Call UI_thread C' On_start_computation_thread, Thread_start, Thread_join,
       Call UI_thread A' On_pause_computational_thread,
       Call UI_thread B' On_pause_computational_thread,
       Call UI_thread C' On_pause_computational_thread]\<rparr>"

text \<open>The started simulator after the window was closed, written out.\<close>

definition closed_shell :: sim where
  "closed_shell = started_shell\<lparr>running := False, computational_thread := Exited,
     last_animation_time := 0, main_thread_finished := Some True, computational_nodes := [],
     trace := trace started_shell @ [Call UI_thread A' On_exit, Call UI_thread B' On_exit,
       Call UI_thread C' On_exit, Print_thread_names, Thread_join, Application_quit]\<rparr>"

text \<open>
  A run of the loop with three frames: the worker enters, and every time it looks at the
  clock the closure of the frame before has run and the interval has passed.
\<close>

definition three_frames :: "event list" where
  "three_frames = [Worker 0, Worker 10, Main_task, Worker 12, Main_task, Worker 15]"

text \<open>
  A stop and a new start while the closure of a frame is still waiting: the worker posts
  its frame of time 10, the scheduler is stopped and started, and the new worker posts
  its first frame before the UI thread has run anything.
\<close>

definition restart :: "event list" where
  "restart = [Start, Worker 0, Worker 10, Stop, Start, Worker 0, Worker 20]"

text \<open>
  The float that Python writes \<^verbatim>\<open>0.1\<close>, and two readings of the clock: the float
  \<^verbatim>\<open>1762208000.25\<close>, and the float that Python gives for
  \<^verbatim>\<open>1762208000.25 + 0.1\<close>, which is \<open>1762208000.25 + 419430 / 2 ^ 22\<close>.
\<close>

definition float_tenth :: real where
  "float_tenth = 3602879701896397 / 2 ^ 55"

definition clock_a :: real where
  "clock_a = 7048832001 / 4"

definition clock_b :: real where
  "clock_b = 7048832001 / 4 + 209715 / 2 ^ 21"

text \<open>
  The started simulator with \<^verbatim>\<open>animation_delay_time\<close> set to \<^verbatim>\<open>0.1\<close>, and a run
  of its loop: the worker enters, begins a frame at the first reading, the UI thread
  runs the closure, and the worker reads the clock again at the second reading.
\<close>

definition tenth_shell :: sim where
  "tenth_shell = started_shell\<lparr>animation_delay_time := float_tenth\<rparr>"

definition short_frames :: "event list" where
  "short_frames = [Worker 0, Worker clock_a, Main_task, Worker clock_b]"

section \<open>Lemmas on the trace\<close>

lemma calls_of_Nil [simp]: "calls_of t cb [] = []"
  by (simp add: calls_of_def map_filter_def)

lemma calls_of_Cons [simp]:
  "calls_of t cb (a # tr) =
     (case call_node t cb a of None \<Rightarrow> calls_of t cb tr | Some n \<Rightarrow> n # calls_of t cb tr)"
  by (simp add: calls_of_def map_filter_def split: option.splits)

lemma calls_of_append [simp]: "calls_of t cb (xs @ ys) = calls_of t cb xs @ calls_of t cb ys"
  by (simp add: calls_of_def map_filter_def)

lemma calls_of_map_Call [simp]:
  "calls_of t cb (map (\<lambda>n. Call t' n cb') ns) = (if t' = t \<and> cb' = cb then ns else [])"
  by (induction ns) auto

lemma count_list_map_other [simp]:
  "(\<And>n. f n \<noteq> a) \<Longrightarrow> count_list (map f ns) a = 0"
  by (induction ns) auto

lemma frame_times_Nil [simp]: "frame_times [] = []"
  by (simp add: frame_times_def map_filter_def)

lemma frame_times_Cons [simp]:
  "frame_times (a # tr) =
     (case frame_time a of None \<Rightarrow> frame_times tr | Some t \<Rightarrow> t # frame_times tr)"
  by (simp add: frame_times_def map_filter_def split: option.splits)

lemma frame_times_append [simp]: "frame_times (xs @ ys) = frame_times xs @ frame_times ys"
  by (simp add: frame_times_def map_filter_def)

lemma frame_times_map_Call [simp]: "frame_times (map (\<lambda>n. Call t n cb) ns) = []"
  by (induction ns) auto

lemma not_VisualNode: "(c \<noteq> VisualNode) = (c = HeadlessNode)"
  by (cases c) auto

lemma trace_fan_out [simp]:
  "trace (fan_out cb s) = trace s @ map (\<lambda>node. Call UI_thread node cb) (computational_nodes s)"
  by (simp add: fan_out_def)

lemma fan_out_fields [simp]:
  "computational_nodes (fan_out cb s) = computational_nodes s"
  "running (fan_out cb s) = running s"
  "computational_thread (fan_out cb s) = computational_thread s"
  "main_thread_finished (fan_out cb s) = main_thread_finished s"
  "posted (fan_out cb s) = posted s"
  "last_animation_time (fan_out cb s) = last_animation_time s"
  "animation_delay_time (fan_out cb s) = animation_delay_time s"
  by (simp_all add: fan_out_def)

lemma shell_eq:
  "shell = (BaseSimulator 0 12)
     \<lparr>computational_nodes := [A', B', C'],
      trace := [Panel_add_fixed 12, Panel_add_child B', Window_add_child C']\<rparr>"
  by (simp add: shell_def register_node_def BaseSimulator_def Let_def
      node_A_def node_B_def node_C_def A'_def B'_def C'_def)

lemma shell_fields [simp]:
  "computational_nodes shell = [A', B', C']"
  "trace shell = [Panel_add_fixed 12, Panel_add_child B', Window_add_child C']"
  "running shell = False"
  "computational_thread shell = Unstarted"
  "posted shell = 0"
  "animation_delay_time shell = 2"
  "last_animation_time shell = 0"
  "main_thread_finished shell = None"
  by (simp_all add: shell_eq BaseSimulator_def)

lemma nodes_distinct [simp]:
  "cls A' = HeadlessNode" "cls B' = VisualNode" "cls C' = VisualNode"
  "ident A' = 1" "ident B' = 2" "ident C' = 3"
  "A' \<noteq> B'" "A' \<noteq> C'" "B' \<noteq> C'" "B' \<noteq> A'" "C' \<noteq> A'" "C' \<noteq> B'"
  by (simp_all add: A'_def B'_def C'_def node_A_def node_B_def node_C_def)

section \<open>Lemmas on floats\<close>

lemma bit_length_pos: "0 < n \<Longrightarrow> 0 < bit_length n"
  by (subst bit_length.simps) simp

lemma bit_length_bounds:
  "0 < n \<Longrightarrow> 2 ^ (bit_length n - 1) \<le> n \<and> n < 2 ^ bit_length n"
proof (induction n rule: bit_length.induct)
  case (1 n)
  show ?case
  proof (cases "n div 2 = 0")
    case True
    with "1.prems" have "n = 1" by presburger
    then show ?thesis by (simp add: bit_length.simps)
  next
    case False
    then have p: "0 < n div 2" by simp
    let ?b = "bit_length (n div 2)"
    from "1.IH" "1.prems" p have lo: "2 ^ (?b - 1) \<le> n div 2" and hi: "n div 2 < 2 ^ ?b"
      by simp_all
    have b: "bit_length n = Suc ?b" using "1.prems" by (subst bit_length.simps) simp
    from bit_length_pos [OF p] have "2 ^ ?b = (2::nat) * 2 ^ (?b - 1)"
      by (cases ?b) simp_all
    with lo have l2: "2 ^ ?b \<le> 2 * (n div 2)" by simp
    have "2 * (n div 2) \<le> n" by simp
    with l2 have "2 ^ ?b \<le> n" by (rule order_trans)
    moreover have "n < 2 * (n div 2) + 2" by presburger
    with hi have "n < 2 * 2 ^ ?b" by linarith
    ultimately show ?thesis using b by simp
  qed
qed

lemma pow2_powr: "pow2 k = 2 powr (real_of_int k)"
  by (simp add: pow2_def powr_int)

lemma pow2_pos: "0 < pow2 k"
  by (simp add: pow2_powr)

lemma pow2_add: "pow2 (a + b) = pow2 a * pow2 b"
  by (simp add: pow2_powr powr_add)

lemma pow2_less_iff: "pow2 a < pow2 b \<longleftrightarrow> a < b"
  by (simp add: pow2_powr)

lemma pow2_of_nat: "pow2 (int n) = 2 ^ n"
  by (simp add: pow2_def)

lemma pow2_minus_nat: "pow2 (- int n) = 1 / 2 ^ n"
  by (cases "n = 0") (simp_all add: pow2_def)

lemma binade_ge_one:
  assumes "1 \<le> x"
  shows "pow2 (binade x) \<le> x \<and> x < pow2 (binade x + 1)"
proof -
  define i where "i = \<lfloor>x\<rfloor>"
  define n where "n = nat i"
  define b where "b = bit_length n"
  from assms have i1: "1 \<le> i" unfolding i_def by simp
  then have n: "0 < n" and ni: "int n = i" unfolding n_def by simp_all
  from bit_length_bounds [OF n] have lo: "2 ^ (b - 1) \<le> n" and hi: "n < 2 ^ b"
    unfolding b_def by simp_all
  from bit_length_pos [OF n] have bp: "0 < b" unfolding b_def .
  have e: "binade x = int (b - 1)"
    using assms bp unfolding binade_def b_def n_def i_def by simp
  from bp have e1: "int (b - 1) + 1 = int b" by simp
  from lo have "int (2 ^ (b - 1)) \<le> int n" by (simp only: of_nat_le_iff)
  then have "2 ^ (b - 1) \<le> i" using ni by simp
  then have "of_int (2 ^ (b - 1)) \<le> x" unfolding i_def by (simp only: le_floor_iff)
  then have a: "pow2 (int (b - 1)) \<le> x" by (simp add: pow2_of_nat)
  from hi have "int n < int (2 ^ b)" by (simp only: of_nat_less_iff)
  then have "i < 2 ^ b" using ni by simp
  then have "x < of_int (2 ^ b)" unfolding i_def by (simp only: floor_less_iff)
  then have c: "x < pow2 (int b)" by (simp add: pow2_of_nat)
  from a c show ?thesis by (simp only: e e1)
qed

lemma binade_lt_one:
  assumes "0 < x" and "x < 1"
  shows "pow2 (binade x) \<le> x \<and> x < pow2 (binade x + 1)"
proof -
  define c where "c = \<lceil>1 / x\<rceil>"
  define n where "n = nat (c - 1)"
  define b where "b = bit_length n"
  from assms have y: "1 < 1 / x" by simp
  then have c2: "2 \<le> c" unfolding c_def by (simp add: le_ceiling_iff)
  then have n: "0 < n" and ni: "int n = c - 1" unfolding n_def by simp_all
  from bit_length_bounds [OF n] have lo: "2 ^ (b - 1) \<le> n" and hi: "n < 2 ^ b"
    unfolding b_def by simp_all
  from bit_length_pos [OF n] have bp: "0 < b" unfolding b_def .
  have e: "binade x = - int b"
    using assms unfolding binade_def b_def n_def c_def by simp
  from bp have e1: "- int b + 1 = - int (b - 1)" by simp
  from hi have "int n < int (2 ^ b)" by (simp only: of_nat_less_iff)
  then have "c \<le> 2 ^ b" using ni by simp
  then have "1 / x \<le> of_int (2 ^ b)" unfolding c_def by (simp only: ceiling_le_iff)
  then have "1 / x \<le> 2 ^ b" by simp
  with assms(1) have "1 \<le> 2 ^ b * x" by (simp add: field_simps)
  then have "1 / 2 ^ b \<le> x" by (simp add: field_simps)
  then have a: "pow2 (- int b) \<le> x" by (simp only: pow2_minus_nat)
  from lo have "int (2 ^ (b - 1)) \<le> int n" by (simp only: of_nat_le_iff)
  then have "2 ^ (b - 1) < c" using ni by simp
  then have "of_int (2 ^ (b - 1)) < 1 / x" unfolding c_def by (simp only: less_ceiling_iff)
  then have "2 ^ (b - 1) < 1 / x" by simp
  with assms(1) have "2 ^ (b - 1) * x < 1" by (simp add: field_simps)
  then have "x < 1 / 2 ^ (b - 1)" by (simp add: field_simps)
  then have d: "x < pow2 (- int (b - 1))" by (simp only: pow2_minus_nat)
  from a d show ?thesis by (simp only: e e1)
qed

lemma binade_bounds:
  "0 < x \<Longrightarrow> pow2 (binade x) \<le> x \<and> x < pow2 (binade x + 1)"
  using binade_ge_one [of x] binade_lt_one [of x] by (cases "1 \<le> x") simp_all

lemma round_half_even_of_int: "round_half_even (of_int m) = m"
  by (simp add: round_half_even_def)

text \<open>A number with at most 53 bits before an exponent in range is a float.\<close>

lemma float_round_exact_pos:
  assumes m: "0 < m" "m < 2 ^ 53" and k: "- 1074 \<le> k"
  shows "float_round (of_int m * pow2 k) = of_int m * pow2 k"
proof -
  define x where "x = of_int m * pow2 k"
  have xp: "0 < x" unfolding x_def using m(1) by (simp add: pow2_pos)
  define K where "K = max (binade x - 52) (- 1074)"
  from m(2) have "real_of_int m < of_int (2 ^ 53)" by (simp only: of_int_less_iff)
  then have "real_of_int m < pow2 53" by (simp add: pow2_def)
  then have "x < pow2 53 * pow2 k" unfolding x_def by (simp add: pow2_pos)
  then have "x < pow2 (53 + k)" by (simp only: pow2_add)
  moreover from binade_bounds [OF xp] have "pow2 (binade x) \<le> x" ..
  ultimately have "pow2 (binade x) < pow2 (53 + k)" by linarith
  then have "binade x < 53 + k" by (simp only: pow2_less_iff)
  with k have Kk: "K \<le> k" unfolding K_def by simp
  define j where "j = nat (k - K)"
  from Kk have kj: "k = K + int j" unfolding j_def by simp
  have "pow2 k = pow2 K * 2 ^ j" by (simp only: kj pow2_add pow2_of_nat)
  then have "x / pow2 K = of_int m * 2 ^ j"
    unfolding x_def using pow2_pos [of K] by simp
  also have "\<dots> = of_int (m * 2 ^ j)" by simp
  finally have q: "x / pow2 K = of_int (m * 2 ^ j)" .
  have "float_round x = of_int (round_half_even (x / pow2 K)) * pow2 K"
    using xp unfolding float_round_def K_def by (simp add: Let_def)
  also have "\<dots> = of_int (m * 2 ^ j) * pow2 K" by (simp only: q round_half_even_of_int)
  also have "\<dots> = x / pow2 K * pow2 K" by (simp only: q)
  also have "\<dots> = x" using pow2_pos [of K] by simp
  finally show ?thesis unfolding x_def .
qed

lemma float_round_minus: "float_round (- x) = - float_round x"
  by (simp add: float_round_def Let_def sgn_minus)

lemma float_round_exact:
  assumes "\<bar>m\<bar> < 2 ^ 53" and "- 1074 \<le> k"
  shows "float_round (of_int m * pow2 k) = of_int m * pow2 k"
proof (cases m "0::int" rule: linorder_cases)
  case less
  then have "0 < - m" "- m < 2 ^ 53" using assms(1) by simp_all
  from float_round_exact_pos [OF this assms(2)]
  have "float_round (- (of_int m * pow2 k)) = - (of_int m * pow2 k)" by simp
  then show ?thesis by (simp only: float_round_minus neg_equal_iff_equal)
next
  case equal
  then show ?thesis by (simp add: float_round_def)
next
  case greater
  with assms show ?thesis by (simp add: float_round_exact_pos)
qed

text \<open>Adding the default interval 2 to a multiple of \<open>1 / 2 ^ 22\<close> below \<open>2 ^ 31 - 2\<close> is exact.\<close>

lemma float_add_two_exact:
  assumes "0 \<le> m" and "m + 2 ^ 23 < 2 ^ 53"
  shows "float_add (of_int m / 2 ^ 22) 2 = of_int m / 2 ^ 22 + 2"
proof -
  have "of_int m / 2 ^ 22 + (2::real) = of_int (m + 2 ^ 23) * pow2 (- 22)"
    by (simp add: pow2_def field_simps)
  moreover from assms have "\<bar>m + 2 ^ 23\<bar> < 2 ^ 53" by simp
  then have "float_round (of_int (m + 2 ^ 23) * pow2 (- 22)) = of_int (m + 2 ^ 23) * pow2 (- 22)"
    by (rule float_round_exact) simp
  ultimately show ?thesis by (simp only: float_add_def)
qed

lemma clock_reading_exact:
  assumes "clock_reading t"
  shows "float_add t 2 = t + 2"
proof -
  define m where "m = \<lfloor>t * 2 ^ 22\<rfloor>"
  from assms have t0: "0 \<le> t" and t1: "t + 2 < 2 ^ 31" and tm: "of_int m = t * 2 ^ 22"
    unfolding clock_reading_def m_def by simp_all
  from tm have t: "t = of_int m / 2 ^ 22" by simp
  from t0 have "0 \<le> t * 2 ^ 22" by simp
  then have m0: "0 \<le> m" unfolding m_def by simp
  from t1 have "(t + 2) * 2 ^ 22 < 2 ^ 31 * 2 ^ 22" by simp
  then have "real_of_int (m + 2 ^ 23) < real_of_int (2 ^ 53)" by (simp add: tm algebra_simps)
  then have "m + 2 ^ 23 < 2 ^ 53" by (simp only: of_int_less_iff)
  with m0 show ?thesis unfolding t by (rule float_add_two_exact)
qed

lemma clock_readings_exact: "list_all clock_reading ts \<Longrightarrow> sums_exact 2 ts"
  by (induction ts) (simp_all add: sums_exact_def clock_reading_exact)

section \<open>Lemmas on the loop\<close>

lemmas float_defs = float_add_def float_sub_def float_round_def binade_def round_half_even_def
  pow2_def bit_length.simps

lemmas step_defs = float_defs worker_step_def loop_entry_def loop_body_def time_sleep_def sleep_argument_def
  main_thread_task_def display_def start_computational_thread_def stop_computational_thread_def
  thread_join_def quit_def on_exit_def fan_out_def Let_def

lemma successively_tl: "successively R (x # xs) \<Longrightarrow> successively R xs"
  by (cases xs) simp_all

lemma successively_append_right: "successively R (xs @ ys) \<Longrightarrow> successively R ys"
  by (induction xs) (auto dest: successively_tl)

lemma successively_exact:
  "successively (\<lambda>t t'. float_add t d \<le> t') ts \<Longrightarrow> sums_exact d ts
     \<Longrightarrow> successively (\<lambda>t t'. t + d \<le> t') ts"
  by (induction ts rule: induct_list012) (simp_all add: sums_exact_def)

lemma frames_in_order_append:
  "frames_in_order ns a \<Longrightarrow> frames_in_order ns b \<Longrightarrow> frames_in_order ns (a @ b)"
proof (induction ns a rule: frames_in_order.induct)
  case (2 ns t tr)
  let ?k = "length (frame_block ns)"
  from "2.prems" have tk: "take ?k tr = frame_block ns"
    and fd: "frames_in_order ns (drop ?k tr)" by simp_all
  from tk have "length (take ?k tr) = ?k" by simp
  then have le: "?k \<le> length tr" by simp
  from "2.IH" fd "2.prems"(2) have "frames_in_order ns (drop ?k tr @ b)" by simp
  with tk le show ?case by simp
qed simp_all

lemma frames_in_order_UI_calls:
  "frames_in_order ns (map (\<lambda>n. Call UI_thread n cb) xs)"
  by (induction xs) simp_all

text \<open>
  One event of a run appends to the trace, keeps the nodes and the interval, keeps the
  frames in order, and a frame it begins is at least the interval after the anchor.
\<close>

lemma loop_step:
  assumes "loop_event e"
  shows "\<exists>s1 tr. apply_event e s = Inr s1 \<and> trace s1 = trace s @ tr
     \<and> computational_nodes s1 = computational_nodes s
     \<and> animation_delay_time s1 = animation_delay_time s
     \<and> frames_in_order (computational_nodes s) tr
     \<and> set (frame_times tr) \<subseteq> set (worker_times [e])
     \<and> (\<forall>X. successively (\<lambda>t t'. float_add t (animation_delay_time s) \<le> t') (anchor s1 @ X) \<longrightarrow>
          successively (\<lambda>t t'. float_add t (animation_delay_time s) \<le> t') (anchor s @ frame_times tr @ X))"
proof (cases e)
  case (Worker now)
  show ?thesis
  proof (cases "computational_thread s")
    case Unstarted
    with Worker show ?thesis by (simp add: worker_step_def anchor_def)
  next
    case Started
    with Worker show ?thesis
      by (auto simp add: worker_step_def anchor_def loop_entry_def dest: successively_tl)
  next
    case Looping
    show ?thesis
    proof (cases "running s")
      case False
      with Worker Looping show ?thesis by (simp add: worker_step_def anchor_def)
    next
      case True
      show ?thesis
      proof (cases "loop_body now s")
        case (Inl x)
        with Worker Looping True show ?thesis by (simp add: worker_step_def anchor_def)
      next
        case (Inr s')
        show ?thesis
        proof (cases "main_thread_finished s = Some True
                       \<and> float_add (last_animation_time s) (animation_delay_time s) \<le> now")
          case frame: True
          with Inr have s': "s' = s\<lparr>last_animation_time := now,
                   trace := trace s @ [Frame now] @ frame_block (computational_nodes s),
                   main_thread_finished := Some False,
                   posted := Suc (posted s)\<rparr>"
            by (simp add: loop_body_def frame_block_def)
          have ft: "frame_times (frame_block (computational_nodes s)) = []"
            by (simp add: frame_block_def)
          from Worker Looping True Inr s' ft frame show ?thesis
            by (simp add: worker_step_def anchor_def)
        next
          case noframe: False
          with Inr have "s' = s\<lparr>trace := trace s @ [Sleep (sleep_argument now s)]\<rparr>"
            by (auto simp add: loop_body_def time_sleep_def split: option.splits if_splits)
          with Worker Looping True Inr show ?thesis
            by (simp add: worker_step_def anchor_def)
        qed
      qed
    qed
  next
    case Exited
    with Worker show ?thesis by (simp add: worker_step_def anchor_def)
  qed
next
  case Main_task
  then show ?thesis
    by (simp add: main_thread_task_def display_def anchor_def frames_in_order_UI_calls)
qed (use assms in simp_all)

lemma worker_times_Cons: "worker_times (e # es) = worker_times [e] @ worker_times es"
  by (cases e) simp_all

lemma loop_run:
  assumes "list_all loop_event es"
  shows "\<exists>s' tr. exec es s = Inr s' \<and> trace s' = trace s @ tr
     \<and> computational_nodes s' = computational_nodes s
     \<and> animation_delay_time s' = animation_delay_time s
     \<and> frames_in_order (computational_nodes s) tr
     \<and> set (frame_times tr) \<subseteq> set (worker_times es)
     \<and> successively (\<lambda>t t'. float_add t (animation_delay_time s) \<le> t') (anchor s @ frame_times tr)"
  using assms
proof (induction es arbitrary: s)
  case Nil
  then show ?case by (simp add: anchor_def)
next
  case (Cons e es)
  then have le: "loop_event e" and rest: "list_all loop_event es" by simp_all
  from loop_step [OF le, of s] obtain s1 tr1 where
    a: "apply_event e s = Inr s1" and t1: "trace s1 = trace s @ tr1"
    and n1: "computational_nodes s1 = computational_nodes s"
    and d1: "animation_delay_time s1 = animation_delay_time s"
    and f1: "frames_in_order (computational_nodes s) tr1"
    and w1: "set (frame_times tr1) \<subseteq> set (worker_times [e])"
    and x1: "\<forall>X. successively (\<lambda>t t'. float_add t (animation_delay_time s) \<le> t') (anchor s1 @ X) \<longrightarrow>
          successively (\<lambda>t t'. float_add t (animation_delay_time s) \<le> t') (anchor s @ frame_times tr1 @ X)"
    by blast
  from Cons.IH [OF rest, of s1] obtain s' tr2 where
    b: "exec es s1 = Inr s'" and t2: "trace s' = trace s1 @ tr2"
    and n2: "computational_nodes s' = computational_nodes s1"
    and d2: "animation_delay_time s' = animation_delay_time s1"
    and f2: "frames_in_order (computational_nodes s1) tr2"
    and w2: "set (frame_times tr2) \<subseteq> set (worker_times es)"
    and x2: "successively (\<lambda>t t'. float_add t (animation_delay_time s1) \<le> t') (anchor s1 @ frame_times tr2)"
    by blast
  from x1 x2 d1 have "successively (\<lambda>t t'. float_add t (animation_delay_time s) \<le> t')
      (anchor s @ frame_times (tr1 @ tr2))" by simp
  moreover from f1 f2 n1 have "frames_in_order (computational_nodes s) (tr1 @ tr2)"
    by (simp add: frames_in_order_append)
  moreover from w1 w2 have "set (frame_times (tr1 @ tr2)) \<subseteq> set (worker_times (e # es))"
    by (subst worker_times_Cons) auto
  ultimately show ?case using a b t1 t2 n1 n2 d1 d2 by simp
qed

text \<open>
  Within one run of the loop this is kept: the worker posts only when the flag says
  that the closure before has run, and only that closure sets the flag again.
\<close>

lemma in_flight_step:
  assumes "loop_event e" and "one_in_flight s"
  shows "\<exists>s1. apply_event e s = Inr s1 \<and> one_in_flight s1"
proof (cases e)
  case (Worker now)
  with assms(2) show ?thesis
    by (auto simp add: one_in_flight_def worker_step_def loop_entry_def loop_body_def time_sleep_def
        split: thread_state.splits option.splits sum.splits if_splits)
next
  case Main_task
  with assms(2) show ?thesis
    by (auto simp add: one_in_flight_def main_thread_task_def display_def)
qed (use assms in simp_all)

lemma one_run_posts_one_task:
  assumes "list_all loop_event es" and "one_in_flight s"
  shows "\<exists>s'. exec es s = Inr s' \<and> one_in_flight s' \<and> posted s' \<le> 1"
  using assms
proof (induction es arbitrary: s)
  case Nil
  then show ?case by (auto simp add: one_in_flight_def)
next
  case (Cons e es)
  then have "loop_event e" and r: "list_all loop_event es" by simp_all
  with Cons.prems(2) obtain s1 where "apply_event e s = Inr s1" and g: "one_in_flight s1"
    using in_flight_step by blast
  with Cons.IH [OF r g] show ?case by simp
qed

lemma first_start_one_in_flight: "posted s = 0 \<Longrightarrow> one_in_flight (start_computational_thread s)"
  by (simp add: one_in_flight_def start_computational_thread_def Let_def)

section \<open>Lemmas on the concrete states\<close>

lemma started_shell_eq:
  "started_shell = shell\<lparr>running := True, computational_thread := Started,
     trace := trace shell @ [Call UI_thread A' On_start_computation_thread,
       Call UI_thread B' On_start_computation_thread,
       Call UI_thread C' On_start_computation_thread, Thread_start]\<rparr>"
  by (simp add: started_shell_def start_computational_thread_def Let_def fan_out_def)

lemma looping_shell_eq:
  "looping_shell = started_shell\<lparr>computational_thread := Looping, last_animation_time := 0,
     main_thread_finished := Some True\<rparr>"
  by (simp add: looping_shell_def started_shell_eq step_defs)

lemma in_flight_shell_eq:
  "in_flight_shell = looping_shell\<lparr>last_animation_time := 10,
     main_thread_finished := Some False, posted := 1,
     trace := trace looping_shell @ [Frame 10, Call Worker_thread A' Step, Post_to_main_thread]\<rparr>"
  by (simp add: in_flight_shell_def looping_shell_eq started_shell_eq step_defs)

lemma quit_started_shell: "quit started_shell = Inr closed_shell"
  by (simp add: closed_shell_def started_shell_eq step_defs)

lemma exec_short_frames:
  "exec short_frames tenth_shell =
     Inr (tenth_shell\<lparr>last_animation_time := clock_b, computational_thread := Looping,
       main_thread_finished := Some False, posted := 1,
       trace := trace tenth_shell @
         [Frame clock_a, Call Worker_thread A' Step, Post_to_main_thread,
          Call UI_thread B' Step, Call UI_thread C' Step,
          Frame clock_b, Call Worker_thread A' Step, Post_to_main_thread]\<rparr>)"
  by (simp add: short_frames_def tenth_shell_def float_tenth_def clock_a_def clock_b_def
      started_shell_eq step_defs)

lemma exec_three_frames:
  "exec three_frames started_shell =
     Inr (started_shell\<lparr>last_animation_time := 15, computational_thread := Looping,
       main_thread_finished := Some False, posted := 1,
       trace := trace started_shell @
         [Frame 10, Call Worker_thread A' Step, Post_to_main_thread,
          Call UI_thread B' Step, Call UI_thread C' Step,
          Frame 12, Call Worker_thread A' Step, Post_to_main_thread,
          Call UI_thread B' Step, Call UI_thread C' Step,
          Frame 15, Call Worker_thread A' Step, Post_to_main_thread]\<rparr>)"
  by (simp add: three_frames_def started_shell_eq step_defs)

section \<open>The registry\<close>

text \<open>
  C9. \<^verbatim>\<open>register_node\<close> puts the node at the end of the list of nodes, with its
  \<^verbatim>\<open>simulator\<close> attribute set to the simulator. A visual node whose \<^verbatim>\<open>register\<close>
  flag is true is given to the panel, after a spacer of the fixed size \<^verbatim>\<open>em\<close>; a
  visual node whose flag is false is given to the window; for a node that is not visual
  the toolkit is not called. Nothing is compared with the nodes already registered: the
  function has no failing branch, and registering the same node twice keeps both entries.
\<close>

theorem register_node_appends:
  "computational_nodes (register_node n s)
     = computational_nodes s @ [n\<lparr>simulator := Some (obj_id s)\<rparr>]
   \<and> simulator (last (computational_nodes (register_node n s))) = Some (obj_id s)
   \<and> added s (register_node n s) =
       (if cls n = VisualNode then
          (if register n then
             [Panel_add_fixed (em s), Panel_add_child (n\<lparr>simulator := Some (obj_id s)\<rparr>)]
           else [Window_add_child (n\<lparr>simulator := Some (obj_id s)\<rparr>)])
        else [])
   \<and> computational_nodes (register_node n (register_node n s))
       = computational_nodes s
           @ [n\<lparr>simulator := Some (obj_id s)\<rparr>, n\<lparr>simulator := Some (obj_id s)\<rparr>]"
  by (simp add: register_node_def added_def Let_def)

theorem register_node_appends_witness:
  "computational_nodes (register_node node_B (register_node node_B (BaseSimulator 0 12))) = [B', B']
   \<and> added (BaseSimulator 0 12) (register_node node_B (BaseSimulator 0 12))
       = [Panel_add_fixed 12, Panel_add_child B']
   \<and> added (BaseSimulator 0 12) (register_node node_C (BaseSimulator 0 12)) = [Window_add_child C']
   \<and> added (BaseSimulator 0 12) (register_node node_A (BaseSimulator 0 12)) = []"
  using register_node_appends [of node_B "BaseSimulator 0 12"]
    register_node_appends [of node_C "BaseSimulator 0 12"]
    register_node_appends [of node_A "BaseSimulator 0 12"]
  by (simp add: BaseSimulator_def node_A_def node_B_def node_C_def B'_def C'_def)

text \<open>
  C10. \<^verbatim>\<open>get_nodes\<close> selects with \<^verbatim>\<open>isinstance\<close>, which holds for the instances of
  a subclass too: asked for \<^verbatim>\<open>HeadlessNode\<close> it returns the whole list of nodes, the
  visual ones included, in the order of registration, so it gives no list of the nodes
  that are headless only. The computation loop does not use it: in a frame the worker
  steps the nodes that are not instances of \<^verbatim>\<open>VisualNode\<close>, which are those of class
  \<^verbatim>\<open>HeadlessNode\<close> itself.
\<close>

theorem get_nodes_instance_of:
  "get_nodes HeadlessNode s = computational_nodes s
   \<and> get_nodes VisualNode s = filter (\<lambda>node. cls node = VisualNode) (computational_nodes s)
   \<and> (main_thread_finished s = Some True
        \<and> float_add (last_animation_time s) (animation_delay_time s) \<le> now \<longrightarrow>
        (\<exists>s'. loop_body now s = Inr s'
           \<and> calls_of Worker_thread Step (added s s')
               = filter (\<lambda>node. \<not> isinstance node VisualNode) (computational_nodes s)
           \<and> calls_of Worker_thread Step (added s s')
               = filter (\<lambda>node. cls node = HeadlessNode) (computational_nodes s)))"
  by (simp add: get_nodes_def loop_body_def added_def not_VisualNode)

theorem get_nodes_instance_of_witness:
  "get_nodes HeadlessNode (loop_entry shell) = [A', B', C']
   \<and> get_nodes VisualNode (loop_entry shell) = [B', C']
   \<and> (\<exists>s'. loop_body 5 (loop_entry shell) = Inr s'
         \<and> calls_of Worker_thread Step (added (loop_entry shell) s') = [A'])"
  using get_nodes_instance_of [of "loop_entry shell" 5]
  by (simp add: loop_entry_def float_defs)

section \<open>Event dispatch\<close>

lemma dispatch_calls:
  "dispatch h e ns w = (r, calls, w') \<Longrightarrow>
     prefix (map fst calls) ns
   \<and> (\<forall>i. Suc i < length calls \<longrightarrow> snd (calls ! i) \<noteq> HANDLED)
   \<and> (r = HANDLED \<longleftrightarrow> (\<exists>c \<in> set calls. snd c = HANDLED))
   \<and> (r \<noteq> HANDLED \<longrightarrow> r = IGNORED \<and> map fst calls = ns)"
proof (induction ns arbitrary: w r calls w')
  case Nil
  then show ?case by simp
next
  case (Cons n ns)
  obtain r1 w1 where h: "h n e w = (r1, w1)" by (cases "h n e w")
  show ?case
  proof (cases "r1 = HANDLED")
    case True
    with Cons.prems h show ?thesis by auto
  next
    case False
    obtain r2 calls2 w2 where d: "dispatch h e ns w1 = (r2, calls2, w2)"
      by (cases "dispatch h e ns w1")
    from Cons.IH [OF d] have ih1: "prefix (map fst calls2) ns"
      and ih2: "\<forall>i. Suc i < length calls2 \<longrightarrow> snd (calls2 ! i) \<noteq> HANDLED"
      and ih3: "r2 = HANDLED \<longleftrightarrow> (\<exists>c \<in> set calls2. snd c = HANDLED)"
      and ih4: "r2 \<noteq> HANDLED \<longrightarrow> r2 = IGNORED \<and> map fst calls2 = ns"
      by blast+
    from Cons.prems h d False
    have eq: "r = r2" "calls = (n, r1) # calls2" "w' = w2" by auto
    have "\<forall>i. Suc i < length calls \<longrightarrow> snd (calls ! i) \<noteq> HANDLED"
    proof (intro allI impI)
      fix i
      assume "Suc i < length calls"
      then show "snd (calls ! i) \<noteq> HANDLED"
        using eq ih2 False by (cases i) auto
    qed
    then show ?thesis using eq ih1 ih3 ih4 False by auto
  qed
qed

text \<open>
  C7. Both dispatchers are first-responder chains. For every list of registered nodes,
  every handler and every event: the nodes whose handler is invoked are an initial part
  of the list, in its order; no call but the last one made reports \<^verbatim>\<open>HANDLED\<close>, so no
  node is invoked after one that did; the dispatcher returns \<^verbatim>\<open>HANDLED\<close> exactly when
  some invoked node reported it; otherwise it has invoked every node and returns
  \<^verbatim>\<open>IGNORED\<close>, as it does in particular when every node reported \<^verbatim>\<open>IGNORED\<close>.
\<close>

theorem dispatch_first_responder:
  "(on_mouse_3d M s me w = (r, calls, w') \<longrightarrow>
       prefix (map fst calls) (computational_nodes s)
     \<and> (\<forall>i. Suc i < length calls \<longrightarrow> snd (calls ! i) \<noteq> HANDLED)
     \<and> (r = HANDLED \<longleftrightarrow> (\<exists>c \<in> set calls. snd c = HANDLED))
     \<and> (r \<noteq> HANDLED \<longrightarrow> r = IGNORED \<and> map fst calls = computational_nodes s)
     \<and> ((\<forall>c \<in> set calls. snd c = IGNORED) \<longrightarrow>
          r = IGNORED \<and> map fst calls = computational_nodes s))
   \<and> (on_key M s ke v = (r', calls', v') \<longrightarrow>
       prefix (map fst calls') (computational_nodes s)
     \<and> (\<forall>i. Suc i < length calls' \<longrightarrow> snd (calls' ! i) \<noteq> HANDLED)
     \<and> (r' = HANDLED \<longleftrightarrow> (\<exists>c \<in> set calls'. snd c = HANDLED))
     \<and> (r' \<noteq> HANDLED \<longrightarrow> r' = IGNORED \<and> map fst calls' = computational_nodes s)
     \<and> ((\<forall>c \<in> set calls'. snd c = IGNORED) \<longrightarrow>
          r' = IGNORED \<and> map fst calls' = computational_nodes s))"
proof (intro conjI impI)
  assume a: "on_mouse_3d M s me w = (r, calls, w')"
  then have d: "dispatch (node_on_mouse_3d M) me (computational_nodes s) w = (r, calls, w')"
    by (simp add: on_mouse_3d_def)
  note f = dispatch_calls [OF d]
  from f show "prefix (map fst calls) (computational_nodes s)" by blast
  from f show "\<forall>i. Suc i < length calls \<longrightarrow> snd (calls ! i) \<noteq> HANDLED" by blast
  from f show "r = HANDLED \<longleftrightarrow> (\<exists>c \<in> set calls. snd c = HANDLED)" by blast
  from f show "r \<noteq> HANDLED \<Longrightarrow> r = IGNORED" by blast
  from f show "r \<noteq> HANDLED \<Longrightarrow> map fst calls = computational_nodes s" by blast
  assume i: "\<forall>c \<in> set calls. snd c = IGNORED"
  then have "r \<noteq> HANDLED" using f by auto
  with f show "r = IGNORED" and "map fst calls = computational_nodes s" by blast+
next
  assume a: "on_key M s ke v = (r', calls', v')"
  then have d: "dispatch (node_on_key M) ke (computational_nodes s) v = (r', calls', v')"
    by (simp add: on_key_def)
  note f = dispatch_calls [OF d]
  from f show "prefix (map fst calls') (computational_nodes s)" by blast
  from f show "\<forall>i. Suc i < length calls' \<longrightarrow> snd (calls' ! i) \<noteq> HANDLED" by blast
  from f show "r' = HANDLED \<longleftrightarrow> (\<exists>c \<in> set calls'. snd c = HANDLED)" by blast
  from f show "r' \<noteq> HANDLED \<Longrightarrow> r' = IGNORED" by blast
  from f show "r' \<noteq> HANDLED \<Longrightarrow> map fst calls' = computational_nodes s" by blast
  assume i: "\<forall>c \<in> set calls'. snd c = IGNORED"
  then have "r' \<noteq> HANDLED" using f by auto
  with f show "r' = IGNORED" and "map fst calls' = computational_nodes s" by blast+
qed

theorem dispatch_first_responder_witness:
  "on_mouse_3d methods_B shell () 0 = (HANDLED, [(A', IGNORED), (B', HANDLED)], 2)
   \<and> on_key methods_B shell () 0 = (HANDLED, [(A', IGNORED), (B', HANDLED)], 2)
   \<and> prefix [A', B'] [A', B', C']
   \<and> C' \<notin> set (map fst [(A', IGNORED), (B', HANDLED)])"
proof -
  have m: "on_mouse_3d methods_B shell () 0 = (HANDLED, [(A', IGNORED), (B', HANDLED)], 2)"
    by (simp add: on_mouse_3d_def methods_B_def B_handles_def)
  have k: "on_key methods_B shell () 0 = (HANDLED, [(A', IGNORED), (B', HANDLED)], 2)"
    by (simp add: on_key_def methods_B_def B_handles_def)
  from dispatch_first_responder
    [of methods_B shell "()" 0 HANDLED "[(A', IGNORED), (B', HANDLED)]" 2
        "()" 0 HANDLED "[(A', IGNORED), (B', HANDLED)]" 2] m k
  have "prefix (map fst [(A', IGNORED), (B', HANDLED)]) (computational_nodes shell)"
    by blast
  with m k show ?thesis by simp
qed

section \<open>Starting and stopping\<close>

text \<open>
  C6. Starting is idempotent: for every list of nodes, two calls of
  \<^verbatim>\<open>start_computational_thread\<close> in a row leave the simulator as one call does, and
  on a running scheduler a call does nothing. From a stopped scheduler the two calls
  together start one worker thread and call \<^verbatim>\<open>on_start_computation_thread\<close> once on
  each registered node, in the order of registration; the first call sets
  \<^verbatim>\<open>_running\<close>, and the second is the call that does nothing.
\<close>

theorem start_twice_is_start_once:
  "start_computational_thread (start_computational_thread s) = start_computational_thread s
   \<and> (running s \<longrightarrow> start_computational_thread s = s)
   \<and> (\<not> running s \<longrightarrow>
        count_list (added s (start_computational_thread (start_computational_thread s)))
          Thread_start = 1
      \<and> calls_of UI_thread On_start_computation_thread
          (added s (start_computational_thread (start_computational_thread s)))
        = computational_nodes s
      \<and> running (start_computational_thread s)
      \<and> computational_thread (start_computational_thread s) = Started)"
  by (simp add: start_computational_thread_def Let_def added_def)

theorem start_twice_is_start_once_witness:
  "\<not> running shell
   \<and> start_computational_thread (start_computational_thread shell)
       = start_computational_thread shell
   \<and> count_list (added shell (start_computational_thread (start_computational_thread shell)))
        Thread_start = 1
   \<and> calls_of UI_thread On_start_computation_thread
        (added shell (start_computational_thread (start_computational_thread shell)))
      = [A', B', C']"
  using start_twice_is_start_once [of shell] by auto

text \<open>
  C1. The specification asks that a stop of a stopped scheduler does nothing and calls
  \<^verbatim>\<open>on_pause_computational_thread\<close> on no node. \<^verbatim>\<open>stop_computational_thread\<close> has
  no test of \<^verbatim>\<open>_running\<close>, though: it always clears the flag, joins the thread and
  calls the method on every node. The theorem runs it on two stopped simulators. After a
  start and a stop the flag is clear, and one more stop joins the terminated thread and
  calls \<^verbatim>\<open>on_pause_computational_thread\<close> on the three nodes again. On the simulator
  that was never started the flag is clear too, and the stop raises \<^verbatim>\<open>RuntimeError\<close>,
  from the join of a thread that was not started.
\<close>

theorem stop_when_stopped_pauses_again:
  "exec [Start, Stop] shell = Inr stopped_shell
   \<and> \<not> running stopped_shell
   \<and> stop_computational_thread stopped_shell =
       Inr (stopped_shell\<lparr>trace := trace stopped_shell @
         [Thread_join, Call UI_thread A' On_pause_computational_thread,
          Call UI_thread B' On_pause_computational_thread,
          Call UI_thread C' On_pause_computational_thread]\<rparr>)
   \<and> \<not> running shell
   \<and> stop_computational_thread shell = Inl RuntimeError"
  by (simp add: stopped_shell_def step_defs)

section \<open>Closing the window\<close>

text \<open>
  C4. The handler of the close signal is idempotent. Whenever a first call returns, a
  second call in a row returns too and changes nothing but the trace, to which it adds
  the printing of the thread names and the request to quit: it calls no node, joins no
  thread, and finds the list of nodes empty and the flag clear as the first call left
  them. Over the two calls \<^verbatim>\<open>on_exit\<close> is called once on each node that was
  registered, in the order of registration, and the worker thread is joined once when
  the scheduler was running (there is no worker to join, and no join, when it was not).
\<close>

theorem quit_twice_is_quit_once:
  assumes "quit s = Inr s1"
  shows "\<exists>s2. quit s1 = Inr s2
     \<and> s2 = s1\<lparr>trace := trace s1 @ [Print_thread_names, Application_quit]\<rparr>
     \<and> computational_nodes s1 = [] \<and> \<not> running s1
     \<and> calls_of UI_thread On_exit (added s s2) = computational_nodes s
     \<and> count_list (added s s2) Thread_join = (if running s then 1 else 0)"
  using assms
  by (auto simp add: quit_def on_exit_def fan_out_def thread_join_def Let_def added_def
      loop_entry_def split: if_splits thread_state.splits)

theorem quit_twice_is_quit_once_witness:
  "quit started_shell = Inr closed_shell
   \<and> quit closed_shell
       = Inr (closed_shell\<lparr>trace := trace closed_shell @ [Print_thread_names, Application_quit]\<rparr>)
   \<and> calls_of UI_thread On_exit
        (added started_shell
          (closed_shell\<lparr>trace := trace closed_shell @ [Print_thread_names, Application_quit]\<rparr>))
      = [A', B', C']
   \<and> count_list
        (added started_shell
          (closed_shell\<lparr>trace := trace closed_shell @ [Print_thread_names, Application_quit]\<rparr>))
        Thread_join = 1"
proof -
  have r: "running started_shell" "computational_nodes started_shell = [A', B', C']"
    by (simp_all add: started_shell_eq)
  from quit_twice_is_quit_once [OF quit_started_shell] r show ?thesis
    by (auto simp add: quit_started_shell)
qed

text \<open>
  C5, as the specification has it: when the window is closed while the scheduler is
  running, every node that was given \<^verbatim>\<open>on_start_computation_thread\<close> is given
  \<^verbatim>\<open>on_pause_computational_thread\<close> during the close. It is not so: the three nodes
  of the started simulator were given the first, the close returns with the list of
  nodes cleared, and in the whole trace no node was given the second.
\<close>

theorem close_calls_no_pause_counterexample:
  "running started_shell
   \<and> calls_of UI_thread On_start_computation_thread (trace started_shell) = [A', B', C']
   \<and> \<not> isl (quit started_shell)
   \<and> computational_nodes (projr (quit started_shell)) = []
   \<and> calls_of UI_thread On_pause_computational_thread (trace (projr (quit started_shell))) = []"
  by (simp add: quit_started_shell) (simp add: closed_shell_def started_shell_eq)

text \<open>
  C5, amended. When the handler of the close signal runs while the scheduler is running,
  it calls \<^verbatim>\<open>on_exit\<close> on every registered node, in the order of registration, then
  prints the thread names, clears \<^verbatim>\<open>_running\<close> and joins the worker itself (it does
  not call \<^verbatim>\<open>stop_computational_thread\<close>), and then clears the list of nodes and asks
  the application to quit. \<^verbatim>\<open>on_pause_computational_thread\<close> is called on no node
  during the close.
\<close>

theorem close_while_running:
  assumes "running s" and "computational_thread s \<noteq> Unstarted"
  shows "\<exists>s'. quit s = Inr s'
     \<and> added s s' = map (\<lambda>node. Call UI_thread node On_exit) (computational_nodes s)
          @ [Print_thread_names, Thread_join, Application_quit]
     \<and> calls_of UI_thread On_pause_computational_thread (added s s') = []
     \<and> \<not> running s' \<and> computational_thread s' = Exited \<and> computational_nodes s' = []"
  using assms
  by (cases "computational_thread s")
     (simp_all add: quit_def on_exit_def thread_join_def Let_def added_def loop_entry_def)

theorem close_while_running_witness:
  "running started_shell \<and> computational_thread started_shell \<noteq> Unstarted
   \<and> quit started_shell = Inr closed_shell
   \<and> added started_shell closed_shell
       = [Call UI_thread A' On_exit, Call UI_thread B' On_exit, Call UI_thread C' On_exit,
          Print_thread_names, Thread_join, Application_quit]
   \<and> calls_of UI_thread On_pause_computational_thread (added started_shell closed_shell) = []"
proof -
  have r: "running started_shell" and u: "computational_thread started_shell \<noteq> Unstarted"
    and n: "computational_nodes started_shell = [A', B', C']"
    by (simp_all add: started_shell_eq)
  from close_while_running [OF r u] r u n show ?thesis
    by (auto simp add: quit_started_shell)
qed

section \<open>The cadence of the loop\<close>

text \<open>
  C2. The specification asks that the worker, when it begins no frame, sleeps for the
  time left to the next frame, \<^verbatim>\<open>last_frame_time + cadence_interval - now\<close>. The loop
  passes the negation of that to \<^verbatim>\<open>time.sleep\<close>. One second after entering a loop of
  interval 2 with no frame in flight, one second is left; the argument is \<open>- 1\<close>,
  \<^verbatim>\<open>time.sleep\<close> raises \<^verbatim>\<open>ValueError\<close>, and the worker thread ends with
  \<^verbatim>\<open>_running\<close> still set. With the frame of time 10 in flight at time 15, the time
  left is \<open>- 3\<close>; the worker sleeps for three seconds.
\<close>

theorem sleep_argument_is_negated:
  "last_animation_time looping_shell + animation_delay_time looping_shell - 1 = 1
   \<and> sleep_argument 1 looping_shell = - 1
   \<and> loop_body 1 looping_shell = Inl ValueError
   \<and> worker_step 1 looping_shell =
       looping_shell\<lparr>computational_thread := Exited,
         trace := trace looping_shell @ [Worker_raised ValueError]\<rparr>
   \<and> running (worker_step 1 looping_shell)
   \<and> last_animation_time in_flight_shell + animation_delay_time in_flight_shell - 15 = - 3
   \<and> loop_body 15 in_flight_shell
       = Inr (in_flight_shell\<lparr>trace := trace in_flight_shell @ [Sleep 3]\<rparr>)"
  by (simp add: in_flight_shell_eq looping_shell_eq started_shell_eq step_defs)

text \<open>
  C3. The specification asks that at most one closure that steps the visual nodes is
  waiting for the UI thread in every state the scheduler can reach. Within one run of
  the loop the flag sees to it (lemma \<open>one_run_posts_one_task\<close>); but the entry of
  \<^verbatim>\<open>_run_computational_loop\<close> sets \<^verbatim>\<open>main_thread_finished\<close> to true whether a closure
  is waiting or not. After a stop and a new start that come before the UI thread has run
  the closure of the last frame, the new worker posts a second one: two closures are
  waiting, and the flag goes back to true when the first of them has run, with the other
  still waiting.
\<close>

theorem restart_posts_second_task:
  "map_sum id posted (exec restart shell) = Inr 2
   \<and> map_sum id main_thread_finished (exec restart shell) = Inr (Some False)
   \<and> map_sum id posted (exec (restart @ [Main_task]) shell) = Inr 1
   \<and> map_sum id main_thread_finished (exec (restart @ [Main_task]) shell) = Inr (Some True)"
  by (simp add: restart_def step_defs)

text \<open>
  C8, as the specification has it: in every run of the loop the times of frames that
  follow each other are at least the interval apart. It is not so for every interval.
  The loop compares the clock with the float sum of the last time and the interval, and
  that sum is rounded. With the interval \<^verbatim>\<open>0.1\<close> and a frame at the clock's reading
  \<^verbatim>\<open>1762208000.25\<close>, the sum is the float \<open>clock_b\<close>, which is about
  \<open>0.0999999\<close> after that reading; the worker begins the next frame at the reading
  \<open>clock_b\<close>, less than the interval after the frame before.
\<close>

theorem frames_short_of_interval_counterexample:
  "list_all loop_event short_frames
   \<and> animation_delay_time tenth_shell = float_round (1 / 10)
   \<and> float_add clock_a (animation_delay_time tenth_shell) = clock_b
   \<and> \<not> isl (exec short_frames tenth_shell)
   \<and> frame_times (added tenth_shell (projr (exec short_frames tenth_shell))) = [clock_a, clock_b]
   \<and> clock_b - clock_a < animation_delay_time tenth_shell"
proof -
  have "frame_times (added tenth_shell (projr (exec short_frames tenth_shell)))
      = [clock_a, clock_b]"
    by (simp add: exec_short_frames added_def)
  moreover have "\<not> isl (exec short_frames tenth_shell)"
    by (simp add: exec_short_frames)
  moreover have "list_all loop_event short_frames"
    by (simp add: short_frames_def)
  moreover have "animation_delay_time tenth_shell = float_round (1 / 10)"
    "float_add clock_a (animation_delay_time tenth_shell) = clock_b"
    "clock_b - clock_a < animation_delay_time tenth_shell"
    by (simp_all add: tenth_shell_def float_tenth_def clock_a_def clock_b_def float_defs)
  ultimately show ?thesis by blast
qed

text \<open>
  C8, amended. In every run of the loop, that is for every list of steps of the worker
  (each with the time it reads, the steps of the nodes taking no time) and of closures
  run by the UI thread, from every state: the run does not fail; the time of each frame
  after the first is at least the float sum, as Python rounds it, of the time of the
  frame before and \<^verbatim>\<open>animation_delay_time\<close>, so that the times are at least the
  interval apart whenever those sums are exact; they are exact, and the times at least
  2.0 apart, for the default interval 2.0 and readings of the clock that are multiples
  of \<open>1 / 2 ^ 22\<close> from 0 to below \<open>2 ^ 31 - 2\<close>; and after the time of each frame the
  trace has the steps of all the nodes that are headless only, made by the worker thread
  in the order of registration, and only then the posting of the closure that steps the
  visual nodes.
\<close>

theorem cadence_loop_frames:
  assumes "list_all loop_event es"
  shows "\<exists>s'. exec es s = Inr s'
     \<and> successively (\<lambda>t t'. float_add t (animation_delay_time s) \<le> t')
          (frame_times (added s s'))
     \<and> (sums_exact (animation_delay_time s) (frame_times (added s s')) \<longrightarrow>
          successively (\<lambda>t t'. t + animation_delay_time s \<le> t') (frame_times (added s s')))
     \<and> (animation_delay_time s = 2 \<and> list_all clock_reading (worker_times es) \<longrightarrow>
          successively (\<lambda>t t'. t + 2 \<le> t') (frame_times (added s s')))
     \<and> frames_in_order (computational_nodes s) (added s s')"
proof -
  from loop_run [OF assms, of s] obtain s' tr where e: "exec es s = Inr s'"
    and t: "trace s' = trace s @ tr"
    and f: "frames_in_order (computational_nodes s) tr"
    and w: "set (frame_times tr) \<subseteq> set (worker_times es)"
    and a: "successively (\<lambda>t t'. float_add t (animation_delay_time s) \<le> t')
      (anchor s @ frame_times tr)"
    by blast
  from a have r: "successively (\<lambda>t t'. float_add t (animation_delay_time s) \<le> t')
      (frame_times tr)"
    by (rule successively_append_right)
  have x: "successively (\<lambda>t t'. t + animation_delay_time s \<le> t') (frame_times tr)"
    if "sums_exact (animation_delay_time s) (frame_times tr)"
    using r that by (rule successively_exact)
  have c: "successively (\<lambda>t t'. t + 2 \<le> t') (frame_times tr)"
    if d: "animation_delay_time s = 2" and l: "list_all clock_reading (worker_times es)"
  proof -
    from l w have "list_all clock_reading (frame_times tr)"
      by (auto simp add: list_all_iff)
    then have "sums_exact 2 (frame_times tr)" by (rule clock_readings_exact)
    with x d show ?thesis by simp
  qed
  from t have ad: "added s s' = tr" by (simp add: added_def)
  from e r x c f show ?thesis by (intro exI [of _ s']) (simp add: ad)
qed

theorem cadence_loop_frames_witness:
  "list_all loop_event three_frames
   \<and> animation_delay_time started_shell = 2
   \<and> list_all clock_reading (worker_times three_frames)
   \<and> (\<exists>s'. exec three_frames started_shell = Inr s'
         \<and> frame_times (added started_shell s') = [10, 12, 15]
         \<and> successively (\<lambda>t t'. float_add t 2 \<le> t') (frame_times (added started_shell s'))
         \<and> successively (\<lambda>t t'. t + 2 \<le> t') (frame_times (added started_shell s'))
         \<and> frames_in_order [A', B', C'] (added started_shell s'))"
proof -
  have h: "list_all loop_event three_frames" by (simp add: three_frames_def)
  have d: "animation_delay_time started_shell = 2"
    "computational_nodes started_shell = [A', B', C']"
    by (simp_all add: started_shell_eq)
  have c: "list_all clock_reading (worker_times three_frames)"
    by (simp add: three_frames_def clock_reading_def)
  from cadence_loop_frames [OF h, of started_shell] d c obtain s' where
    e: "exec three_frames started_shell = Inr s'"
    and s: "successively (\<lambda>t t'. float_add t 2 \<le> t') (frame_times (added started_shell s'))"
    and x: "successively (\<lambda>t t'. t + 2 \<le> t') (frame_times (added started_shell s'))"
    and f: "frames_in_order [A', B', C'] (added started_shell s')" by auto
  from e have ft: "frame_times (added started_shell s') = [10, 12, 15]"
    by (auto simp add: exec_three_frames added_def)
  with h d c e s x f show ?thesis by blast
qed

end
